theory Spec2Isabelle
  imports Main "HOL-Library.Word"
begin

section \<open>JavaScript strings\<close>

text \<open>
  A JavaScript string is a sequence of UTF-16 code units. The functions of
  \<^verbatim>\<open>results.js\<close> that are modelled here (\<^verbatim>\<open>split\<close>, \<^verbatim>\<open>startsWith\<close>, \<^verbatim>\<open>endsWith\<close>,
  \<^verbatim>\<open>trim\<close>, \<^verbatim>\<open>replace\<close> with a regular expression that has no \<^verbatim>\<open>u\<close> flag) all work
  code unit by code unit, so a string is a list of 16-bit words.
\<close>

type_synonym jschar = "16 word"
type_synonym jsstring = "jschar list"

definition js :: "string \<Rightarrow> jsstring" where
  \<comment> \<open>an ASCII literal of the source, as code units\<close>
  "js s = map of_char s"

definition hash :: jschar where "hash = 0x23"
definition star :: jschar where "star = 0x2A"
definition dash :: jschar where "dash = 0x2D"
definition space :: jschar where "space = 0x20"
definition nl :: jschar where "nl = 0x0A"
definition cr :: jschar where "cr = 0x0D"

definition is_ws :: "jschar \<Rightarrow> bool" where
  \<comment> \<open>the class \<^verbatim>\<open>\s\<close> of a regular expression, which is also what \<^verbatim>\<open>trim\<close> removes:
      TAB, LF, VT, FF, CR, SP, NBSP, the other space separators, LS, PS and the BOM\<close>
  "is_ws c = (c = 0x09 \<or> c = 0x0A \<or> c = 0x0B \<or> c = 0x0C \<or> c = 0x0D \<or> c = 0x20
     \<or> c = 0xA0 \<or> c = 0x1680 \<or> (0x2000 \<le> c \<and> c \<le> 0x200A) \<or> c = 0x2028
     \<or> c = 0x2029 \<or> c = 0x202F \<or> c = 0x205F \<or> c = 0x3000 \<or> c = 0xFEFF)"

definition is_line_terminator :: "jschar \<Rightarrow> bool" where
  \<comment> \<open>the code units that \<^verbatim>\<open>.\<close> of a regular expression does not match: LF, CR, LS, PS\<close>
  "is_line_terminator c = (c = 0x0A \<or> c = 0x0D \<or> c = 0x2028 \<or> c = 0x2029)"

definition starts_with :: "jsstring \<Rightarrow> jsstring \<Rightarrow> bool" where
  \<comment> \<open>\<^verbatim>\<open>s.startsWith(p)\<close>\<close>
  "starts_with p s = (take (length p) s = p)"

definition ends_with :: "jsstring \<Rightarrow> jsstring \<Rightarrow> bool" where
  \<comment> \<open>\<^verbatim>\<open>s.endsWith(p)\<close>\<close>
  "ends_with p s = (length p \<le> length s \<and> drop (length s - length p) s = p)"

definition trim :: "jsstring \<Rightarrow> jsstring" where
  \<comment> \<open>\<^verbatim>\<open>s.trim()\<close>\<close>
  "trim s = rev (dropWhile is_ws (rev (dropWhile is_ws s)))"

fun split_nl :: "jsstring \<Rightarrow> jsstring list" where
  \<comment> \<open>\<^verbatim>\<open>text.split('\n')\<close>: never empty, the empty string gives one empty line\<close>
  "split_nl [] = [[]]"
| "split_nl (c # cs) =
     (if c = nl then [] # split_nl cs
      else (case split_nl cs of [] \<Rightarrow> [[c]] | l # ls \<Rightarrow> (c # l) # ls))"

section \<open>The regular-expression replacements\<close>

function strip_hashes :: "nat \<Rightarrow> jsstring \<Rightarrow> jsstring" where
  \<comment> \<open>\<^verbatim>\<open>line.replace(/###\s*/g, '')\<close>, \<^verbatim>\<open>/##\s*/g\<close> and \<^verbatim>\<open>/#\s*/g\<close> for \<open>n\<close> = 3, 2, 1:
      scanning from the left, a run of \<open>n\<close> hash marks and the white space after it
      (greedily) are dropped and the scan goes on behind them\<close>
  "strip_hashes n [] = []"
| "strip_hashes n (c # cs) =
     (if 0 < n \<and> starts_with (replicate n hash) (c # cs)
      then strip_hashes n (dropWhile is_ws (drop n (c # cs)))
      else c # strip_hashes n cs)"
  by pat_completeness auto
lemma strip_hashes_terminates: "All strip_hashes_dom"
proof (relation "measure (\<lambda>(n, s). length s)")
  show "wf (measure (\<lambda>(n, s). length s))" by simp
next
  fix n :: nat and c :: jschar and cs :: jsstring
  assume "0 < n \<and> starts_with (replicate n hash) (c # cs)"
  then have "length (drop n (c # cs)) < length (c # cs)" by simp
  moreover have "length (dropWhile is_ws (drop n (c # cs))) \<le> length (drop n (c # cs))"
    by (rule length_dropWhile_le)
  ultimately show "((n, dropWhile is_ws (drop n (c # cs))), (n, c # cs))
      \<in> measure (\<lambda>(n, s). length s)" by simp
next
  fix n :: nat and c :: jschar and cs :: jsstring
  show "((n, cs), (n, c # cs)) \<in> measure (\<lambda>(n, s). length s)" by simp
qed

termination strip_hashes
  by (rule strip_hashes_terminates)

fun strip_stars :: "jsstring \<Rightarrow> jsstring" where
  \<comment> \<open>\<^verbatim>\<open>line.replace(/\*\*/g, '')\<close>\<close>
  "strip_stars (a # b # cs) =
     (if a = star \<and> b = star then strip_stars cs else a # strip_stars (b # cs))"
| "strip_stars cs = cs"

definition strip_dash :: "jsstring \<Rightarrow> jsstring" where
  \<comment> \<open>\<^verbatim>\<open>line.replace(/^-\s*/, '')\<close>: anchored and not global, so at most one match\<close>
  "strip_dash s =
     (case s of [] \<Rightarrow> [] | c # cs \<Rightarrow> if c = dash then dropWhile is_ws cs else s)"

fun find_close :: "jsstring \<Rightarrow> (jsstring \<times> jsstring) option" where
  \<comment> \<open>the rest \<^verbatim>\<open>(.*?)\*\*\<close> of the pattern, tried behind an opening \<^verbatim>\<open>**\<close>: the lazy
      group first tries to close, and only then takes one more code unit, which
      \<^verbatim>\<open>.\<close> refuses when it is a line terminator. The result is the captured group
      and the text behind the closing \<^verbatim>\<open>**\<close>.\<close>
  "find_close [] = None"
| "find_close (c # cs) =
     (if starts_with [star, star] (c # cs) then Some ([], tl cs)
      else if is_line_terminator c then None
      else map_option (\<lambda>(cap, rest). (c # cap, rest)) (find_close cs))"

function replace_bold :: "jsstring \<Rightarrow> jsstring" where
  \<comment> \<open>\<^verbatim>\<open>line.replace(/\*\*(.*?)\*\*/g, '<strong>$1</strong>')\<close>: at each position from
      the left the pattern is tried; a match is replaced and the scan goes on behind
      it, otherwise the code unit is kept and the scan moves one position on\<close>
  "replace_bold [] = []"
| "replace_bold (c # cs) =
     (if starts_with [star, star] (c # cs) then
        (case find_close (tl cs) of
           Some (cap, rest) \<Rightarrow> js ''<strong>'' @ cap @ js ''</strong>'' @ replace_bold rest
         | None \<Rightarrow> c # replace_bold cs)
      else c # replace_bold cs)"
  by pat_completeness auto
lemma find_close_shorter:
  "find_close s = Some (cap, rest) \<Longrightarrow> length rest < length s"
proof (induction s arbitrary: cap)
  case Nil
  then show ?case by simp
next
  case (Cons c cs)
  show ?case
  proof (cases "starts_with [star, star] (c # cs)")
    case True
    with Cons.prems show ?thesis by (cases cs) (auto simp: starts_with_def)
  next
    case False
    with Cons.prems obtain cap' where "find_close cs = Some (cap', rest)"
      by (auto split: if_splits)
    from Cons.IH [OF this] show ?thesis by simp
  qed
qed

lemma replace_bold_terminates: "All replace_bold_dom"
proof (relation "measure length")
  show "wf (measure length)" by simp
next
  fix c :: jschar and cs x y :: jsstring and p
  assume "find_close (tl cs) = Some p" and "(x, y) = p"
  then have "find_close (tl cs) = Some (x, y)" by simp
  from find_close_shorter [OF this] have "length y < length (tl cs)" .
  also have "length (tl cs) \<le> length cs" by simp
  finally show "(y, c # cs) \<in> measure length" by simp
qed simp_all

termination replace_bold
  by (rule replace_bold_terminates)

section \<open>The renderer of \<^verbatim>\<open>results.js\<close>\<close>

definition hr_fragment :: jsstring where
  \<open>hr_fragment =
     js ''<hr style="margin: 2rem 0; border: none; border-top: 2px solid #e0e0e0;">''\<close>

definition format_line :: "jsstring \<Rightarrow> jsstring" where
  \<comment> \<open>the arrow function that \<^verbatim>\<open>formatItinerary\<close> maps over the lines\<close>
  "format_line line =
     (if starts_with (js ''### '') line then
        js ''<h3>'' @ strip_hashes 3 line @ js ''</h3>''
      else if starts_with (js ''## '') line then
        js ''<h2>'' @ strip_hashes 2 line @ js ''</h2>''
      else if starts_with (js ''# '') line then
        js ''<h1>'' @ strip_hashes 1 line @ js ''</h1>''
      else if starts_with (js ''**'') line \<and> ends_with (js ''**'') line then
        js ''<h3>'' @ strip_stars line @ js ''</h3>''
      else if starts_with (js ''- '') line then
        js ''<li>'' @ strip_dash line @ js ''</li>''
      else if trim line = js ''---'' then hr_fragment
      else if trim line \<noteq> [] then
        js ''<p>'' @ replace_bold line @ js ''</p>''
      else [])"

definition formatItinerary :: "jsstring \<Rightarrow> jsstring" where
  \<comment> \<open>\<^verbatim>\<open>text.split('\n').map(line => ...).join('')\<close>\<close>
  "formatItinerary text = concat (map format_line (split_nl text))"

datatype LineKind =
  Heading3 | Heading2 | Heading1 | StandaloneBold | ListItem | Rule | Paragraph | Blank

definition classify :: "jsstring \<Rightarrow> LineKind" where
  \<comment> \<open>the branch of the conditional chain of \<open>format_line\<close> that a line takes\<close>
  "classify line =
     (if starts_with (js ''### '') line then Heading3
      else if starts_with (js ''## '') line then Heading2
      else if starts_with (js ''# '') line then Heading1
      else if starts_with (js ''**'') line \<and> ends_with (js ''**'') line then StandaloneBold
      else if starts_with (js ''- '') line then ListItem
      else if trim line = js ''---'' then Rule
      else if trim line \<noteq> [] then Paragraph
      else Blank)"

section \<open>Notions used to state the properties\<close>

text \<open>
  \<open>join_nl\<close> is the inverse of the split, \<open>rtrim\<close> the right half of \<open>trim\<close>, and
  \<open>occurs p s\<close> says that \<open>p\<close> is a contiguous part of \<open>s\<close>.
\<close>

fun join_nl :: "jsstring list \<Rightarrow> jsstring" where
  \<comment> \<open>\<^verbatim>\<open>lines.join('\n')\<close>, the inverse of the split\<close>
  "join_nl [] = []"
| "join_nl [l] = l"
| "join_nl (l # m # ls) = l @ nl # join_nl (m # ls)"

definition rtrim :: "jsstring \<Rightarrow> jsstring" where
  \<comment> \<open>the right half of \<open>trim\<close>\<close>
  "rtrim s = rev (dropWhile is_ws (rev s))"

fun occurs :: "jsstring \<Rightarrow> jsstring \<Rightarrow> bool" where
  \<comment> \<open>\<open>p\<close> is a contiguous part of \<open>s\<close>\<close>
  "occurs p [] = (p = [])"
| "occurs p (c # cs) = (starts_with p (c # cs) \<or> occurs p cs)"

text \<open>
  The inline bold transform as the specification words it, to be compared with
  \<open>replace_bold\<close>: the line is cut into literal text and emphasised spans.
\<close>

fun find_pair :: "jsstring \<Rightarrow> nat option" where
  \<comment> \<open>the position of the first \<^verbatim>\<open>**\<close>\<close>
  "find_pair [] = None"
| "find_pair (c # cs) =
     (if starts_with [star, star] (c # cs) then Some 0 else map_option Suc (find_pair cs))"

datatype segment = Literal jsstring | Emphasis jsstring

function spec_segments :: "jsstring \<Rightarrow> segment list" where
  \<comment> \<open>the inline bold transform in the words of the specification: a match begins at
      the first \<^verbatim>\<open>**\<close> and ends at the nearest following \<^verbatim>\<open>**\<close>, everything between
      is the emphasised span, and the scan goes on behind the match; a \<^verbatim>\<open>**\<close> with no
      \<^verbatim>\<open>**\<close> behind it stays literal, with the rest of the line\<close>
  "spec_segments s =
     (case find_pair s of
        None \<Rightarrow> [Literal s]
      | Some i \<Rightarrow>
          (case find_pair (drop (i + 2) s) of
             None \<Rightarrow> [Literal s]
           | Some j \<Rightarrow>
               Literal (take i s) # Emphasis (take j (drop (i + 2) s))
                 # spec_segments (drop (i + j + 4) s)))"
  by pat_completeness auto
termination
proof (relation "measure length")
  show "wf (measure length)" by simp
next
  fix s :: jsstring and i j :: nat
  assume "find_pair s = Some i"
  then have "s \<noteq> []" by (cases s) auto
  then show "(drop (i + j + 4) s, s) \<in> measure length" by simp
qed

declare spec_segments.simps [simp del]

fun segment_markup :: "segment \<Rightarrow> jsstring" where
  \<comment> \<open>what a segment becomes\<close>
  "segment_markup (Literal t) = t"
| "segment_markup (Emphasis t) = js ''<strong>'' @ t @ js ''</strong>''"

fun segment_source :: "segment \<Rightarrow> jsstring" where
  \<comment> \<open>what a segment was in the line\<close>
  "segment_source (Literal t) = t"
| "segment_source (Emphasis t) = [star, star] @ t @ [star, star]"

fun emphasised :: "segment list \<Rightarrow> jsstring list" where
  \<comment> \<open>the emphasised spans, in order\<close>
  "emphasised [] = []"
| "emphasised (Literal t # gs) = emphasised gs"
| "emphasised (Emphasis t # gs) = t # emphasised gs"

definition spec_bold :: "jsstring \<Rightarrow> jsstring" where
  \<comment> \<open>the line with each emphasised span wrapped in the inline tag\<close>
  "spec_bold s = concat (map segment_markup (spec_segments s))"

section \<open>Lines and trimming\<close>

lemma split_nl_not_Nil: "split_nl s \<noteq> []"
  by (induction s) (auto split: list.splits)

lemma split_nl_append: "split_nl (a @ nl # b) = split_nl a @ split_nl b"
proof (induction a)
  case Nil
  show ?case by simp
next
  case (Cons c a)
  show ?case
  proof (cases "c = nl")
    case True
    with Cons show ?thesis by simp
  next
    case False
    obtain l ls where sp: "split_nl a = l # ls"
      using split_nl_not_Nil [of a] by (cases "split_nl a") auto
    with False Cons show ?thesis by simp
  qed
qed

lemma split_nl_single: "nl \<notin> set s \<Longrightarrow> split_nl s = [s]"
  by (induction s) auto

lemma split_nl_lines: "l \<in> set (split_nl s) \<Longrightarrow> nl \<notin> set l"
proof (induction s arbitrary: l)
  case Nil
  then show ?case by simp
next
  case (Cons c s)
  obtain m ms where sp: "split_nl s = m # ms"
    using split_nl_not_Nil [of s] by (cases "split_nl s") auto
  show ?case
  proof (cases "c = nl")
    case True
    with Cons show ?thesis by auto
  next
    case False
    with Cons.prems sp have "l = c # m \<or> l \<in> set ms" by simp
    then show ?thesis
    proof
      assume "l = c # m"
      moreover have "nl \<notin> set m" using Cons.IH [of m] sp by simp
      ultimately show ?thesis using False by auto
    next
      assume "l \<in> set ms"
      then show ?thesis using Cons.IH [of l] sp by simp
    qed
  qed
qed

lemma join_nl_Cons: "ls \<noteq> [] \<Longrightarrow> join_nl (l # ls) = l @ nl # join_nl ls"
  by (cases ls) auto

lemma join_split_nl: "join_nl (split_nl s) = s"
proof (induction s)
  case Nil
  show ?case by simp
next
  case (Cons c s)
  obtain m ms where sp: "split_nl s = m # ms"
    using split_nl_not_Nil [of s] by (cases "split_nl s") auto
  show ?case
  proof (cases "c = nl")
    case True
    with Cons show ?thesis by (simp add: join_nl_Cons split_nl_not_Nil)
  next
    case False
    with Cons sp show ?thesis by (cases ms) auto
  qed
qed

lemma length_split_nl: "length (split_nl s) = Suc (length (filter (\<lambda>c. c = nl) s))"
proof (induction s)
  case Nil
  show ?case by simp
next
  case (Cons c s)
  obtain m ms where sp: "split_nl s = m # ms"
    using split_nl_not_Nil [of s] by (cases "split_nl s") auto
  with Cons show ?case by auto
qed

lemma rtrim_Nil: "rtrim [] = []"
  by (simp add: rtrim_def)

lemma rtrim_Cons: "rtrim (c # cs) = (if is_ws c \<and> rtrim cs = [] then [] else c # rtrim cs)"
  by (auto simp: rtrim_def dropWhile_append dropWhile_eq_Nil_conv)

lemma trim_Nil: "trim [] = []"
  by (simp add: trim_def)

lemma trim_Cons: "trim (c # cs) = (if is_ws c then trim cs else c # rtrim cs)"
  by (auto simp: trim_def rtrim_def dropWhile_append dropWhile_eq_Nil_conv)

lemma trim_blank: "list_all is_ws s \<Longrightarrow> trim s = []"
  by (induction s) (auto simp: trim_Nil trim_Cons)

lemma trim_eq_Nil: "trim s = [] \<longleftrightarrow> list_all is_ws s"
  by (induction s) (auto simp: trim_Nil trim_Cons)

lemma trim_ws_prefix: "list_all is_ws pre \<Longrightarrow> trim (pre @ s) = trim s"
  by (induction pre) (auto simp: trim_Cons)

lemma rtrim_eq_Nil: "rtrim s = [] \<longleftrightarrow> list_all is_ws s"
  by (induction s) (auto simp: rtrim_Nil rtrim_Cons)


lemma starts_with_simps:
  "starts_with [] s = True"
  "starts_with (p # ps) [] = False"
  "starts_with (p # ps) (c # cs) = (p = c \<and> starts_with ps cs)"
  by (auto simp: starts_with_def)

lemma starts_with_iff: "starts_with p s \<longleftrightarrow> (\<exists>r. s = p @ r)"
  by (metis append_eq_conv_conj starts_with_def append_take_drop_id)

lemma ends_with_iff: "ends_with p s \<longleftrightarrow> (\<exists>r. s = r @ p)"
proof
  assume "ends_with p s"
  then have "s = take (length s - length p) s @ p"
    by (metis append_take_drop_id ends_with_def)
  then show "\<exists>r. s = r @ p" ..
next
  assume "\<exists>r. s = r @ p"
  then show "ends_with p s" by (auto simp: ends_with_def)
qed

lemma ws_not_mark: "is_ws c \<Longrightarrow> c \<noteq> 0x23 \<and> c \<noteq> 0x2A \<and> c \<noteq> 0x2D"
  by (auto simp: is_ws_def)

lemma mark_not_ws: "\<not> is_ws 0x23" "\<not> is_ws 0x2A" "\<not> is_ws 0x2D" "is_ws 0x20" "is_ws 0x0D"
  by (simp_all add: is_ws_def)

lemma occurs_iff: "occurs p s \<longleftrightarrow> (\<exists>u v. s = u @ p @ v)"
proof
  show "occurs p s \<Longrightarrow> \<exists>u v. s = u @ p @ v"
  proof (induction s)
    case Nil
    then show ?case by simp
  next
    case (Cons c cs)
    from Cons.prems have "starts_with p (c # cs) \<or> occurs p cs" by simp
    then show ?case
    proof
      assume "starts_with p (c # cs)"
      then obtain r where "c # cs = [] @ p @ r" by (auto simp: starts_with_iff)
      then show ?thesis by blast
    next
      assume "occurs p cs"
      from Cons.IH [OF this] obtain u v where "cs = u @ p @ v" by blast
      then have "c # cs = (c # u) @ p @ v" by simp
      then show ?thesis by blast
    qed
  qed
next
  assume "\<exists>u v. s = u @ p @ v"
  then obtain u v where "s = u @ p @ v" by blast
  then show "occurs p s"
  proof (induction u arbitrary: s)
    case Nil
    then have "starts_with p s" by (simp add: starts_with_iff)
    then show ?case by (cases s) (auto simp: starts_with_def)
  next
    case (Cons a u)
    then show ?case by simp
  qed
qed

lemma format_line_blank: "trim l = [] \<Longrightarrow> format_line l = []"
proof (cases l)
  case Nil
  then show ?thesis by (simp add: format_line_def js_def starts_with_simps trim_Nil)
next
  case (Cons c cs)
  assume "trim l = []"
  with Cons have "is_ws c" by (simp add: trim_eq_Nil)
  from ws_not_mark [OF this] \<open>trim l = []\<close> Cons show ?thesis
    by (simp add: format_line_def js_def starts_with_simps)
qed

lemma formatItinerary_append:
  "formatItinerary (a @ nl # b) = formatItinerary a @ formatItinerary b"
  by (simp add: formatItinerary_def split_nl_append)

lemma rule_line_shape:
  assumes "trim l = js ''---''"
  shows "\<not> starts_with (js ''### '') l \<and> \<not> starts_with (js ''## '') l
    \<and> \<not> starts_with (js ''# '') l \<and> \<not> starts_with (js ''**'') l
    \<and> \<not> starts_with (js ''- '') l"
proof (cases l)
  case Nil
  with assms show ?thesis by (simp add: trim_Nil js_def)
next
  case (Cons c cs)
  show ?thesis
  proof (cases "is_ws c")
    case True
    from ws_not_mark [OF this] Cons show ?thesis by (simp add: js_def starts_with_simps)
  next
    case False
    with assms Cons have c: "c = 0x2D" and r: "rtrim cs = [0x2D, 0x2D]"
      by (simp_all add: trim_Cons js_def)
    from r have "\<exists>cs'. cs = 0x2D # cs'"
      by (cases cs) (auto simp: rtrim_Nil rtrim_Cons split: if_splits)
    with c Cons show ?thesis by (auto simp: js_def starts_with_simps)
  qed
qed

section \<open>Removing hash runs and bold delimiters\<close>

lemma starts_with_replicate_le:
  "starts_with (replicate n x) s \<Longrightarrow> k \<le> n \<Longrightarrow> starts_with (replicate k x) s"
proof -
  assume "starts_with (replicate n x) s" and "k \<le> n"
  then obtain r where "s = replicate n x @ r" by (auto simp: starts_with_iff)
  with \<open>k \<le> n\<close> have "s = replicate k x @ (replicate (n - k) x @ r)"
    by (simp add: replicate_add [symmetric])
  then show ?thesis unfolding starts_with_iff by blast
qed

lemma strip_hashes_prefix:
  "0 < n \<Longrightarrow> k \<le> n \<Longrightarrow> starts_with (replicate k hash) (strip_hashes n s)
   \<Longrightarrow> k < n \<and> starts_with (replicate k hash) s"
proof (induction n s arbitrary: k rule: strip_hashes.induct)
  case (1 n)
  then show ?case by (cases k) (auto simp: starts_with_simps)
next
  case (2 n c cs)
  show ?case
  proof (cases "starts_with (replicate n hash) (c # cs)")
    case True
    with "2.prems" have "starts_with (replicate k hash)
        (strip_hashes n (dropWhile is_ws (drop n (c # cs))))" by simp
    with "2.IH"(1) [of k] True "2.prems" have "k < n" by simp
    with starts_with_replicate_le [OF True] "2.prems"(2) show ?thesis by simp
  next
    case False
    show ?thesis
    proof (cases k)
      case 0
      with "2.prems" show ?thesis by (simp add: starts_with_simps)
    next
      case (Suc j)
      with "2.prems" False have c: "c = hash"
        and j: "starts_with (replicate j hash) (strip_hashes n cs)"
        by (auto simp: starts_with_simps)
      from "2.IH"(2) [of j] False j "2.prems" Suc
      have "j < n" and sj: "starts_with (replicate j hash) cs" by auto
      from c sj Suc have sk: "starts_with (replicate k hash) (c # cs)"
        by (simp add: starts_with_simps)
      with False have "k \<noteq> n" by auto
      with \<open>k \<le> n\<close> sk show ?thesis by simp
    qed
  qed
qed

lemma strip_hashes_no_run:
  "0 < n \<Longrightarrow> \<not> occurs (replicate n hash) (strip_hashes n s)"
proof (induction n s rule: strip_hashes.induct)
  case (1 n)
  then show ?case by simp
next
  case (2 n c cs)
  show ?case
  proof (cases "starts_with (replicate n hash) (c # cs)")
    case True
    with 2 show ?thesis by simp
  next
    case False
    have "\<not> starts_with (replicate n hash) (strip_hashes n (c # cs))"
      using strip_hashes_prefix [of n n "c # cs"] "2.prems" by auto
    with False 2 show ?thesis by simp
  qed
qed

lemma strip_hashes_unchanged:
  "\<not> occurs (replicate n hash) s \<Longrightarrow> strip_hashes n s = s"
  by (induction s) auto

lemma starts_with_run_overlap:
  assumes "pre \<noteq> []" and "starts_with (replicate n x) (pre @ replicate n x @ y)"
  shows "starts_with (replicate n x) (pre @ replicate (n - 1) x)"
proof (cases "n \<le> length pre")
  case True
  with assms(2) show ?thesis by (simp add: starts_with_def)
next
  case False
  then have lt: "length pre < n" by simp
  from assms(2) have "take n (pre @ replicate n x @ y) = replicate n x"
    by (simp add: starts_with_def)
  with lt have "pre @ replicate (n - length pre) x = replicate n x"
    by (simp add: min_def)
  moreover have "take n (pre @ replicate (n - 1) x) = pre @ replicate (n - length pre) x"
  proof -
    from assms(1) have "1 \<le> length pre" by (cases pre) simp_all
    with lt have "min (n - length pre) (n - 1) = n - length pre" by simp
    with lt show ?thesis by simp
  qed
  ultimately show ?thesis by (simp add: starts_with_def)
qed

lemma strip_hashes_run:
  assumes "0 < n" and "list_all is_ws ws" and "rest = [] \<or> \<not> is_ws (hd rest)"
  shows "\<not> occurs (replicate n hash) (pre @ replicate (n - 1) hash)
    \<Longrightarrow> strip_hashes n (pre @ replicate n hash @ ws @ rest) = pre @ strip_hashes n rest"
proof (induction pre)
  case Nil
  from assms(1) obtain m where n: "n = Suc m" by (cases n) auto
  have dw: "dropWhile is_ws (ws @ rest) = rest"
    using assms(2,3) by (cases rest) (auto simp: dropWhile_append list_all_iff)
  have st: "starts_with (replicate n hash) (hash # replicate m hash @ ws @ rest)"
    unfolding starts_with_iff by (simp add: n)
  have dr: "drop n (hash # replicate m hash @ ws @ rest) = ws @ rest"
    by (simp add: n)
  have "strip_hashes n (hash # replicate m hash @ ws @ rest) = strip_hashes n rest"
    using st dr dw assms(1) by simp
  then show ?case by (simp add: n)
next
  case (Cons c pre)
  from Cons.prems have no: "\<not> starts_with (replicate n hash) ((c # pre) @ replicate (n - 1) hash)"
    and rest: "\<not> occurs (replicate n hash) (pre @ replicate (n - 1) hash)"
    by simp_all
  from no starts_with_run_overlap [of "c # pre" n hash "ws @ rest"]
  have "\<not> starts_with (replicate n hash) (c # pre @ replicate n hash @ ws @ rest)" by auto
  with Cons.IH [OF rest] show ?case by simp
qed

lemma strip_stars_head: "strip_stars s = star # r \<Longrightarrow> \<exists>t. s = star # t"
  by (induction s arbitrary: r rule: strip_stars.induct) (auto split: if_splits)

lemma strip_stars_no_pair: "\<not> occurs [star, star] (strip_stars s)"
proof (induction s rule: strip_stars.induct)
  case (1 a b cs)
  show ?case
  proof (cases "a = star \<and> b = star")
    case True
    with 1 show ?thesis by simp
  next
    case False
    have "\<not> starts_with [star, star] (a # strip_stars (b # cs))"
    proof
      assume "starts_with [star, star] (a # strip_stars (b # cs))"
      then obtain r where "a = star" and "strip_stars (b # cs) = star # r"
        by (auto simp: starts_with_iff)
      with strip_stars_head [of "b # cs" r] False show False by auto
    qed
    with False 1 show ?thesis by simp
  qed
qed (simp_all add: starts_with_def)

lemma strip_stars_pair:
  "\<not> occurs [star, star] (pre @ [star]) \<Longrightarrow>
   strip_stars (pre @ [star, star] @ rest) = pre @ strip_stars rest"
proof (induction pre)
  case Nil
  show ?case by simp
next
  case (Cons c pre)
  then show ?case by (cases pre) (auto simp: starts_with_simps)
qed

lemma strip_stars_unchanged: "\<not> occurs [star, star] s \<Longrightarrow> strip_stars s = s"
  by (induction s rule: strip_stars.induct) (auto simp: starts_with_simps)

section \<open>The inline bold replacement\<close>

lemma find_pair_None: "find_pair s = None \<Longrightarrow> replace_bold s = s"
  by (induction s) (auto split: if_splits)

lemma find_pair_Some:
  "find_pair s = Some i \<Longrightarrow>
   replace_bold s = take i s @ replace_bold (drop i s)
   \<and> drop i s = star # star # drop (i + 2) s"
proof (induction s arbitrary: i)
  case Nil
  then show ?case by simp
next
  case (Cons c cs)
  show ?case
  proof (cases "starts_with [star, star] (c # cs)")
    case True
    with Cons.prems have "i = 0" by simp
    moreover from True obtain r where "c # cs = star # star # r"
      by (auto simp: starts_with_iff)
    ultimately show ?thesis by simp
  next
    case False
    with Cons.prems obtain k where k: "find_pair cs = Some k" and i: "i = Suc k" by auto
    from Cons.IH [OF k] False i show ?thesis by simp
  qed
qed

lemma find_close_None: "find_pair t = None \<Longrightarrow> find_close t = None"
  by (induction t) (auto split: if_splits)

lemma find_close_Some:
  "find_pair t = Some j \<Longrightarrow>
   find_close t = (if list_ex is_line_terminator (take j t) then None
                   else Some (take j t, drop (j + 2) t))"
proof (induction t arbitrary: j)
  case Nil
  then show ?case by simp
next
  case (Cons c cs)
  show ?case
  proof (cases "starts_with [star, star] (c # cs)")
    case True
    with Cons.prems have "j = 0" by simp
    moreover from True obtain r where "c # cs = star # star # r"
      by (auto simp: starts_with_iff)
    ultimately show ?thesis by (simp add: starts_with_simps)
  next
    case False
    with Cons.prems obtain k where k: "find_pair cs = Some k" and j: "j = Suc k" by auto
    from Cons.IH [OF k] False j show ?thesis by simp
  qed
qed

lemma replace_bold_star: "find_pair t = None \<Longrightarrow> replace_bold (star # t) = star # t"
proof -
  assume none: "find_pair t = None"
  then have t: "replace_bold t = t" by (rule find_pair_None)
  show ?thesis
  proof (cases "starts_with [star, star] (star # t)")
    case True
    then obtain r where r: "t = star # r" by (auto simp: starts_with_iff)
    with none have "find_pair r = None" by (auto split: if_splits)
    then have "find_close r = None" by (rule find_close_None)
    with r t show ?thesis by (simp add: starts_with_simps)
  next
    case False
    with t show ?thesis by simp
  qed
qed

lemma replace_bold_open:
  "find_pair t = None \<Longrightarrow> replace_bold (star # star # t) = star # star # t"
proof -
  assume none: "find_pair t = None"
  then have fc: "find_close t = None" by (rule find_close_None)
  have "replace_bold (star # star # t) = star # replace_bold (star # t)"
    by (subst replace_bold.simps(2)) (simp add: starts_with_simps fc del: replace_bold.simps)
  also have "replace_bold (star # t) = star # t" by (rule replace_bold_star [OF none])
  finally show ?thesis .
qed

lemma replace_bold_span:
  "find_pair t = Some j \<Longrightarrow> \<not> list_ex is_line_terminator (take j t) \<Longrightarrow>
   replace_bold (star # star # t)
     = js ''<strong>'' @ take j t @ js ''</strong>'' @ replace_bold (drop (j + 2) t)"
  by (subst replace_bold.simps(2))
    (simp add: starts_with_simps find_close_Some del: replace_bold.simps)

lemma replace_bold_spec:
  "\<forall>t \<in> set (emphasised (spec_segments s)). \<not> list_ex is_line_terminator t
   \<Longrightarrow> replace_bold s = spec_bold s"
proof (induction s rule: spec_segments.induct)
  case (1 s)
  show ?case
  proof (cases "find_pair s")
    case None
    then show ?thesis by (simp add: spec_bold_def find_pair_None spec_segments.simps [of s])
  next
    case (Some i)
    from find_pair_Some [OF Some]
    have rb: "replace_bold s = take i s @ replace_bold (drop i s)"
      and dr: "drop i s = star # star # drop (i + 2) s" by simp_all
    show ?thesis
    proof (cases "find_pair (drop (i + 2) s)")
      case None
      have "replace_bold (drop i s) = drop i s"
        by (simp only: dr replace_bold_open [OF None])
      with rb have "replace_bold s = s" by simp
      with Some None show ?thesis by (simp add: spec_bold_def spec_segments.simps [of s])
    next
      case inner: (Some j)
      from "1.prems" Some inner spec_segments.simps [of s]
      have clean: "\<not> list_ex is_line_terminator (take j (drop (i + 2) s))"
        and rest: "\<forall>t \<in> set (emphasised (spec_segments (drop (i + j + 4) s))).
            \<not> list_ex is_line_terminator t"
        by simp_all
      from "1.IH" [OF Some inner rest]
      have ih: "replace_bold (drop (i + j + 4) s) = spec_bold (drop (i + j + 4) s)" .
      have "j + 2 + (i + 2) = i + j + 4" by arith
      then have dd: "drop (j + 2) (drop (i + 2) s) = drop (i + j + 4) s"
        by (simp only: drop_drop)
      have "replace_bold (drop i s) = js ''<strong>'' @ take j (drop (i + 2) s)
          @ js ''</strong>'' @ replace_bold (drop (j + 2) (drop (i + 2) s))"
        by (simp only: dr replace_bold_span [OF inner clean])
      with rb dd ih
      have "replace_bold s = take i s @ js ''<strong>'' @ take j (drop (i + 2) s)
          @ js ''</strong>'' @ spec_bold (drop (i + j + 4) s)" by simp
      with Some inner show ?thesis by (simp add: spec_bold_def spec_segments.simps [of s])
    qed
  qed
qed

lemma spec_segments_source: "concat (map segment_source (spec_segments s)) = s"
proof (induction s rule: spec_segments.induct)
  case (1 s)
  show ?case
  proof (cases "find_pair s")
    case None
    then show ?thesis by (simp add: spec_segments.simps [of s])
  next
    case (Some i)
    from find_pair_Some [OF Some]
    have dr: "drop i s = star # star # drop (i + 2) s" by simp
    show ?thesis
    proof (cases "find_pair (drop (i + 2) s)")
      case None
      with Some show ?thesis by (simp add: spec_segments.simps [of s])
    next
      case inner: (Some j)
      from find_pair_Some [OF inner]
      have dj: "drop j (drop (i + 2) s) = star # star # drop (j + 2) (drop (i + 2) s)"
        by simp
      have "j + 2 + (i + 2) = i + j + 4" by arith
      then have dd: "drop (j + 2) (drop (i + 2) s) = drop (i + j + 4) s"
        by (simp only: drop_drop)
      have "s = take i s @ drop i s" by (rule append_take_drop_id [symmetric])
      also have "drop i s = star # star # drop (i + 2) s" by (rule dr)
      also have "drop (i + 2) s = take j (drop (i + 2) s) @ drop j (drop (i + 2) s)"
        by (rule append_take_drop_id [symmetric])
      also note dj
      also note dd
      finally have "s = take i s @ star # star # take j (drop (i + 2) s)
          @ star # star # drop (i + j + 4) s" .
      with "1.IH" [OF Some inner] Some inner show ?thesis
        by (simp add: spec_segments.simps [of s])
    qed
  qed
qed






lemma format_line_paragraph:
  "classify l = Paragraph \<Longrightarrow> format_line l = js ''<p>'' @ replace_bold l @ js ''</p>''"
  by (auto simp: classify_def format_line_def split: if_splits)

lemma format_line_cases:
  "format_line u =
     (case classify u of
        Heading3 \<Rightarrow> js ''<h3>'' @ strip_hashes 3 u @ js ''</h3>''
      | Heading2 \<Rightarrow> js ''<h2>'' @ strip_hashes 2 u @ js ''</h2>''
      | Heading1 \<Rightarrow> js ''<h1>'' @ strip_hashes 1 u @ js ''</h1>''
      | StandaloneBold \<Rightarrow> js ''<h3>'' @ strip_stars u @ js ''</h3>''
      | ListItem \<Rightarrow> js ''<li>'' @ strip_dash u @ js ''</li>''
      | Rule \<Rightarrow> hr_fragment
      | Paragraph \<Rightarrow> js ''<p>'' @ replace_bold u @ js ''</p>''
      | Blank \<Rightarrow> [])"
  by (simp add: classify_def format_line_def)

section \<open>The text as a sequence of lines\<close>

text \<open>
  C1. For every text, the markup is the concatenation, in order and with nothing in
  between, of the fragments of its lines, where the lines are the pieces of the text
  between the line feeds: they are at least one, none holds a line feed, joined by
  line feeds they give the text back, and there is one more of them than line feeds in
  the text. So the markup of two texts joined by a line feed is the markup of the first
  followed by the markup of the second, a text with no line feed is one line, a line
  that is empty after trimming gives the empty fragment, and the empty text gives the
  empty markup.
\<close>

theorem formatItinerary_concat_lines:
  "(\<exists>lines. lines \<noteq> [] \<and> (\<forall>l \<in> set lines. nl \<notin> set l) \<and> join_nl lines = s
      \<and> length lines = Suc (length (filter (\<lambda>c. c = nl) s))
      \<and> formatItinerary s = concat (map format_line lines))
   \<and> formatItinerary (a @ nl # b) = formatItinerary a @ formatItinerary b
   \<and> (nl \<notin> set s \<longrightarrow> formatItinerary s = format_line s)
   \<and> (trim l = [] \<longrightarrow> format_line l = [])
   \<and> formatItinerary [] = []"
proof -
  have "split_nl s \<noteq> [] \<and> (\<forall>l \<in> set (split_nl s). nl \<notin> set l)
      \<and> join_nl (split_nl s) = s
      \<and> length (split_nl s) = Suc (length (filter (\<lambda>c. c = nl) s))
      \<and> formatItinerary s = concat (map format_line (split_nl s))"
    using split_nl_lines [of _ s]
    by (simp add: split_nl_not_Nil join_split_nl length_split_nl formatItinerary_def)
  then have lines: "\<exists>lines. lines \<noteq> [] \<and> (\<forall>l \<in> set lines. nl \<notin> set l) \<and> join_nl lines = s
      \<and> length lines = Suc (length (filter (\<lambda>c. c = nl) s))
      \<and> formatItinerary s = concat (map format_line lines)" ..
  have one: "nl \<notin> set s \<longrightarrow> formatItinerary s = format_line s"
    by (simp add: formatItinerary_def split_nl_single)
  have empty: "formatItinerary [] = []"
    by (simp add: formatItinerary_def format_line_blank trim_Nil)
  from lines formatItinerary_append one format_line_blank empty show ?thesis by blast
qed

theorem formatItinerary_concat_lines_witness:
  "formatItinerary (js ''# A'' @ nl # js ''  '' @ nl # js ''b'') = js ''<h1>A</h1><p>b</p>''
   \<and> nl \<notin> set (js ''- x'') \<and> formatItinerary (js ''- x'') = format_line (js ''- x'')
   \<and> trim (js ''  '') = [] \<and> format_line (js ''  '') = []"
proof -
  have a: "nl \<notin> set (js ''- x'')" by (simp add: js_def nl_def)
  have b: "trim (js ''  '') = []" by code_simp
  have c: "formatItinerary (js ''# A'' @ nl # js ''  '' @ nl # js ''b'') = js ''<h1>A</h1><p>b</p>''"
    by code_simp
  from formatItinerary_concat_lines [of "js ''- x''" "[]" "[]" "js ''  ''"] a b c
  show ?thesis by simp
qed

section \<open>Headings\<close>

text \<open>
  C4. A line that starts with three, two or one hash marks and a space is rendered as
  a heading of level 3, 2 or 1 around the line from which every run of that many hash
  marks, with the white space behind it, has been removed, wherever it stands: no such
  run is left in the content; scanning from the left, the text before the first run
  is kept, the run and the white space behind it are dropped, and the rest is treated
  the same way; a text without such a run is unchanged. \<^verbatim>\<open># Title\<close> gives a level-1
  heading holding \<^verbatim>\<open>Title\<close>, and \<^verbatim>\<open>### Day 1\<close> a level-3 heading holding \<^verbatim>\<open>Day 1\<close>.
\<close>

theorem heading_fragment:
  "(starts_with (js ''### '') l3 \<longrightarrow>
       classify l3 = Heading3
       \<and> format_line l3 = js ''<h3>'' @ strip_hashes 3 l3 @ js ''</h3>'')
   \<and> (starts_with (js ''## '') l2 \<longrightarrow>
       classify l2 = Heading2
       \<and> format_line l2 = js ''<h2>'' @ strip_hashes 2 l2 @ js ''</h2>'')
   \<and> (starts_with (js ''# '') l1 \<longrightarrow>
       classify l1 = Heading1
       \<and> format_line l1 = js ''<h1>'' @ strip_hashes 1 l1 @ js ''</h1>'')
   \<and> (0 < n \<longrightarrow> \<not> occurs (replicate n hash) (strip_hashes n l))
   \<and> (0 < n \<and> \<not> occurs (replicate n hash) (pre @ replicate (n - 1) hash)
        \<and> list_all is_ws ws \<and> (rest = [] \<or> \<not> is_ws (hd rest)) \<longrightarrow>
        strip_hashes n (pre @ replicate n hash @ ws @ rest) = pre @ strip_hashes n rest)
   \<and> (\<not> occurs (replicate n hash) u \<longrightarrow> strip_hashes n u = u)
   \<and> formatItinerary (js ''# Title'') = js ''<h1>Title</h1>''
   \<and> formatItinerary (js ''### Day 1'') = js ''<h3>Day 1</h3>''"
proof -
  have h3: "classify l3 = Heading3
      \<and> format_line l3 = js ''<h3>'' @ strip_hashes 3 l3 @ js ''</h3>''"
    if "starts_with (js ''### '') l3"
    using that by (simp add: classify_def format_line_def)
  have h2: "classify l2 = Heading2
      \<and> format_line l2 = js ''<h2>'' @ strip_hashes 2 l2 @ js ''</h2>''"
    if "starts_with (js ''## '') l2"
  proof -
    from that obtain r where "l2 = 0x23 # 0x23 # 0x20 # r"
      by (auto simp: starts_with_iff js_def)
    then have "\<not> starts_with (js ''### '') l2" by (simp add: js_def starts_with_simps)
    with that show ?thesis by (simp add: classify_def format_line_def)
  qed
  have h1: "classify l1 = Heading1
      \<and> format_line l1 = js ''<h1>'' @ strip_hashes 1 l1 @ js ''</h1>''"
    if "starts_with (js ''# '') l1"
  proof -
    from that obtain r where "l1 = 0x23 # 0x20 # r"
      by (auto simp: starts_with_iff js_def)
    then have "\<not> starts_with (js ''### '') l1 \<and> \<not> starts_with (js ''## '') l1"
      by (simp add: js_def starts_with_simps)
    with that show ?thesis by (simp add: classify_def format_line_def)
  qed
  have ex1: "formatItinerary (js ''# Title'') = js ''<h1>Title</h1>''" by code_simp
  have ex3: "formatItinerary (js ''### Day 1'') = js ''<h3>Day 1</h3>''" by code_simp
  from h3 h2 h1 strip_hashes_no_run [of n l] strip_hashes_run [of n ws rest pre]
    strip_hashes_unchanged [of n u] ex1 ex3
  show ?thesis by blast
qed

theorem heading_fragment_witness:
  "starts_with (js ''### '') (js ''### Day ###1#'')
   \<and> classify (js ''### Day ###1#'') = Heading3
   \<and> format_line (js ''### Day ###1#'') = js ''<h3>Day 1#</h3>''
   \<and> starts_with (js ''## '') (js ''##  a## b'')
   \<and> classify (js ''##  a## b'') = Heading2
   \<and> format_line (js ''##  a## b'') = js ''<h2>ab</h2>''
   \<and> starts_with (js ''# '') (js ''# C# #'')
   \<and> classify (js ''# C# #'') = Heading1
   \<and> format_line (js ''# C# #'') = js ''<h1>C</h1>''
   \<and> \<not> occurs (replicate 2 hash) (strip_hashes 2 (js ''#####''))
   \<and> \<not> occurs (replicate 2 hash) (js ''a#b'' @ replicate (2 - 1) hash)
   \<and> list_all is_ws (js ''  '') \<and> \<not> is_ws (hd (js ''c##''))
   \<and> strip_hashes 2 (js ''a#b'' @ replicate 2 hash @ js ''  '' @ js ''c##'') = js ''a#bc''
   \<and> \<not> occurs (replicate 2 hash) (js ''# #'')
   \<and> strip_hashes 2 (js ''# #'') = js ''# #''"
proof -
  have a: "starts_with (js ''### '') (js ''### Day ###1#'')"
    and b: "starts_with (js ''## '') (js ''##  a## b'')"
    and c: "starts_with (js ''# '') (js ''# C# #'')"
    and d: "\<not> occurs (replicate 2 hash) (js ''a#b'' @ replicate (2 - 1) hash)"
    and e: "list_all is_ws (js ''  '') \<and> \<not> is_ws (hd (js ''c##''))"
    and f: "\<not> occurs (replicate 2 hash) (js ''# #'')"
    by code_simp+
  have g: "js ''<h3>'' @ strip_hashes 3 (js ''### Day ###1#'') @ js ''</h3>''
      = js ''<h3>Day 1#</h3>''"
    and h: "js ''<h2>'' @ strip_hashes 2 (js ''##  a## b'') @ js ''</h2>'' = js ''<h2>ab</h2>''"
    and i: "js ''<h1>'' @ strip_hashes 1 (js ''# C# #'') @ js ''</h1>'' = js ''<h1>C</h1>''"
    and j: "js ''a#b'' @ strip_hashes 2 (js ''c##'') = js ''a#bc''"
    by code_simp+
  from heading_fragment [of "js ''### Day ###1#''" "js ''##  a## b''" "js ''# C# #''" 2
      "js ''#####''" "js ''a#b''" "js ''  ''" "js ''c##''" "js ''# #''"]
    a b c d e f g h i j
  show ?thesis by simp
qed

section \<open>Lines in bold\<close>

text \<open>
  C2, as the code has it. A line that itself (not its trimmed text) starts with and
  ends with two asterisks is classified \<open>StandaloneBold\<close> and rendered as a level-3
  heading around the line with every pair of asterisks removed (such a line matches no
  heading prefix, since it starts with an asterisk): no pair is left in the content,
  the text before the first pair is kept, the pair is dropped and the rest treated the
  same way, and a text with no pair is unchanged. \<^verbatim>\<open>**Important**\<close> gives a level-3
  heading holding \<^verbatim>\<open>Important\<close>.
\<close>

theorem standalone_bold_fragment:
  "(starts_with (js ''**'') l \<and> ends_with (js ''**'') l \<longrightarrow>
       classify l = StandaloneBold
       \<and> format_line l = js ''<h3>'' @ strip_stars l @ js ''</h3>'')
   \<and> \<not> occurs [star, star] (strip_stars s)
   \<and> (\<not> occurs [star, star] (pre @ [star]) \<longrightarrow>
        strip_stars (pre @ [star, star] @ rest) = pre @ strip_stars rest)
   \<and> (\<not> occurs [star, star] u \<longrightarrow> strip_stars u = u)
   \<and> formatItinerary (js ''**Important**'') = js ''<h3>Important</h3>''"
proof -
  have bold: "classify l = StandaloneBold
      \<and> format_line l = js ''<h3>'' @ strip_stars l @ js ''</h3>''"
    if "starts_with (js ''**'') l" and "ends_with (js ''**'') l"
  proof -
    from that(1) obtain r where "l = 0x2A # 0x2A # r"
      by (auto simp: starts_with_iff js_def)
    then have "\<not> starts_with (js ''### '') l \<and> \<not> starts_with (js ''## '') l
        \<and> \<not> starts_with (js ''# '') l"
      by (simp add: js_def starts_with_simps)
    with that show ?thesis by (simp add: classify_def format_line_def)
  qed
  have ex: "formatItinerary (js ''**Important**'') = js ''<h3>Important</h3>''"
    by code_simp
  from bold strip_stars_no_pair [of s] strip_stars_pair [of pre rest]
    strip_stars_unchanged [of u] ex
  show ?thesis by blast
qed

theorem standalone_bold_fragment_witness:
  "starts_with (js ''**'') (js ''**A** b ***'') \<and> ends_with (js ''**'') (js ''**A** b ***'')
   \<and> classify (js ''**A** b ***'') = StandaloneBold
   \<and> format_line (js ''**A** b ***'') = js ''<h3>A b *</h3>''
   \<and> \<not> occurs [star, star] (js ''a*b'' @ [star])
   \<and> strip_stars (js ''a*b'' @ [star, star] @ js ''*c**'') = js ''a*b*c''
   \<and> \<not> occurs [star, star] (js ''* *'')
   \<and> strip_stars (js ''* *'') = js ''* *''"
proof -
  have a: "starts_with (js ''**'') (js ''**A** b ***'') \<and> ends_with (js ''**'') (js ''**A** b ***'')"
    and b: "\<not> occurs [star, star] (js ''a*b'' @ [star])"
    and c: "\<not> occurs [star, star] (js ''* *'')"
    by code_simp+
  have d: "js ''<h3>'' @ strip_stars (js ''**A** b ***'') @ js ''</h3>'' = js ''<h3>A b *</h3>''"
    and e: "js ''a*b'' @ strip_stars (js ''*c**'') = js ''a*b*c''"
    by code_simp+
  from standalone_bold_fragment [of "js ''**A** b ***''" "[]" "js ''a*b''" "js ''*c**''"
      "js ''* *''"] a b c d e
  show ?thesis by simp
qed

text \<open>
  C2 as stated fails: the trimmed text of \<^verbatim>\<open>**Important** \<close> (a space behind it) is
  wrapped in the delimiter pair and the line matches no heading prefix, but the line
  does not end with the delimiter, so it is a paragraph with inline emphasis. The same
  happens to \<^verbatim>\<open>**Important**\<close> before a carriage return and a line feed.
\<close>

theorem trimmed_bold_counterexample:
  "starts_with (js ''**'') (trim (js ''**Important** ''))
   \<and> ends_with (js ''**'') (trim (js ''**Important** ''))
   \<and> \<not> starts_with (js ''### '') (js ''**Important** '')
   \<and> \<not> starts_with (js ''## '') (js ''**Important** '')
   \<and> \<not> starts_with (js ''# '') (js ''**Important** '')
   \<and> classify (js ''**Important** '') \<noteq> StandaloneBold
   \<and> format_line (js ''**Important** '')
        \<noteq> js ''<h3>'' @ strip_stars (js ''**Important** '') @ js ''</h3>''
   \<and> format_line (js ''**Important** '') = js ''<p><strong>Important</strong> </p>''
   \<and> trim (js ''**Important**'' @ [cr]) = js ''**Important**''
   \<and> formatItinerary (js ''**Important**'' @ [cr, nl])
        = js ''<p><strong>Important</strong>'' @ [cr] @ js ''</p>''"
  by code_simp

section \<open>List items and rules\<close>

text \<open>
  C5. A line that starts with a hyphen and a space is classified \<open>ListItem\<close> (no
  earlier rule can match it) and rendered as a list-item tag, with no list container
  around it, holding the line without its first hyphen and the white space behind
  that hyphen: whatever follows that white space is kept, a further hyphen too.
  \<^verbatim>\<open>- Visit museum\<close> gives the bare list item holding \<^verbatim>\<open>Visit museum\<close>.
\<close>

theorem list_item_fragment:
  "(starts_with (js ''- '') l \<longrightarrow>
       classify l = ListItem
       \<and> format_line l = js ''<li>'' @ dropWhile is_ws (tl l) @ js ''</li>'')
   \<and> (list_all is_ws ws \<and> (rest = [] \<or> \<not> is_ws (hd rest)) \<longrightarrow>
        format_line (js ''- '' @ ws @ rest) = js ''<li>'' @ rest @ js ''</li>'')
   \<and> formatItinerary (js ''- Visit museum'') = js ''<li>Visit museum</li>''"
proof -
  have item: "classify l = ListItem
      \<and> format_line l = js ''<li>'' @ dropWhile is_ws (tl l) @ js ''</li>''"
    if "starts_with (js ''- '') l" for l
  proof -
    from that obtain r where l: "l = 0x2D # 0x20 # r"
      by (auto simp: starts_with_iff js_def)
    show ?thesis
      by (simp add: l classify_def format_line_def starts_with_simps strip_dash_def dash_def
          js_def)
  qed
  have "format_line (js ''- '' @ ws @ rest) = js ''<li>'' @ rest @ js ''</li>''"
    if ws: "list_all is_ws ws" and rest: "rest = [] \<or> \<not> is_ws (hd rest)"
  proof -
    have "starts_with (js ''- '') (js ''- '' @ ws @ rest)" by (simp add: starts_with_iff)
    from item [OF this]
    have "format_line (js ''- '' @ ws @ rest)
        = js ''<li>'' @ dropWhile is_ws (tl (js ''- '' @ ws @ rest)) @ js ''</li>''" ..
    moreover have "dropWhile is_ws (ws @ rest) = rest"
      using ws rest by (cases rest) (auto simp: dropWhile_append list_all_iff)
    ultimately show ?thesis by (simp add: js_def mark_not_ws)
  qed
  moreover have "formatItinerary (js ''- Visit museum'') = js ''<li>Visit museum</li>''"
    by code_simp
  ultimately show ?thesis using item [of l] by blast
qed

theorem list_item_fragment_witness:
  "starts_with (js ''- '') (js ''-  - a'') \<and> classify (js ''-  - a'') = ListItem
   \<and> format_line (js ''-  - a'') = js ''<li>- a</li>''
   \<and> list_all is_ws [0x09] \<and> \<not> is_ws (hd (js ''b c''))
   \<and> format_line (js ''- '' @ [0x09] @ js ''b c'') = js ''<li>b c</li>''"
proof -
  have a: "starts_with (js ''- '') (js ''-  - a'')" by code_simp
  have b: "list_all is_ws [0x09] \<and> \<not> is_ws (hd (js ''b c''))" by code_simp
  have c: "dropWhile is_ws (tl (js ''-  - a'')) = js ''- a''" by code_simp
  have d: "js ''<li>'' @ js ''- a'' @ js ''</li>'' = js ''<li>- a</li>''"
    and e: "js ''<li>'' @ js ''b c'' @ js ''</li>'' = js ''<li>b c</li>''"
    by (simp_all add: js_def)
  from list_item_fragment [of "js ''-  - a''" "[0x09]" "js ''b c''"] a b c d e
  show ?thesis by simp
qed

text \<open>
  C6. A line whose trimmed text is exactly three hyphens is classified \<open>Rule\<close> (no
  earlier rule can match it) and rendered as the one fixed horizontal-rule fragment,
  whatever white space stands around the hyphens; the fragment carries the style
  \<^verbatim>\<open>margin: 2rem 0; border: none; border-top: 2px solid #e0e0e0;\<close>.
\<close>

theorem rule_line_fixed_fragment:
  \<open>(trim l = js ''---'' \<longrightarrow> classify l = Rule \<and> format_line l = hr_fragment)
   \<and> (list_all is_ws pre \<and> list_all is_ws post \<longrightarrow>
        format_line (pre @ js ''---'' @ post) = hr_fragment)
   \<and> hr_fragment =
       js ''<hr style="margin: 2rem 0; border: none; border-top: 2px solid #e0e0e0;">''\<close>
proof -
  have rule: "classify l = Rule \<and> format_line l = hr_fragment" if "trim l = js ''---''" for l
    using rule_line_shape [OF that] that by (simp add: classify_def format_line_def)
  have "trim (pre @ js ''---'' @ post) = js ''---''"
    if "list_all is_ws pre" and "list_all is_ws post"
  proof -
    have "rtrim post = []" using that(2) by (simp add: rtrim_eq_Nil)
    then have "trim (js ''---'' @ post) = js ''---''"
      by (simp add: js_def trim_Cons rtrim_Cons mark_not_ws)
    with that(1) show ?thesis by (simp add: trim_ws_prefix)
  qed
  with rule have "list_all is_ws pre \<and> list_all is_ws post \<longrightarrow>
      format_line (pre @ js ''---'' @ post) = hr_fragment" by blast
  with rule [of l] show ?thesis by (simp add: hr_fragment_def)
qed

theorem rule_line_fixed_fragment_witness:
  "trim (js '' ---'' @ [cr]) = js ''---''
   \<and> classify (js '' ---'' @ [cr]) = Rule
   \<and> format_line (js '' ---'' @ [cr]) = hr_fragment
   \<and> list_all is_ws (js ''  '') \<and> list_all is_ws [cr, 0x09]
   \<and> format_line (js ''  '' @ js ''---'' @ [cr, 0x09]) = hr_fragment"
proof -
  have a: "trim (js '' ---'' @ [cr]) = js ''---''" by code_simp
  have b: "list_all is_ws (js ''  '') \<and> list_all is_ws [cr, 0x09]" by code_simp
  from rule_line_fixed_fragment [of "js '' ---'' @ [cr]" "js ''  ''" "[cr, 0x09]"] a b
  show ?thesis by simp
qed

section \<open>The line of two asterisks\<close>

text \<open>
  C9. The line \<^verbatim>\<open>**\<close> starts with and ends with the bold delimiter (the same two code
  units serve both checks), is classified \<open>StandaloneBold\<close>, and is rendered as a
  level-3 heading with empty content.
\<close>

theorem bare_delimiter_is_heading:
  "starts_with (js ''**'') (js ''**'') \<and> ends_with (js ''**'') (js ''**'')
   \<and> classify (js ''**'') = StandaloneBold
   \<and> format_line (js ''**'') = js ''<h3></h3>''
   \<and> formatItinerary (js ''**'') = js ''<h3></h3>''"
  by code_simp

section \<open>Paragraphs\<close>

text \<open>
  Where the replacement of the code and the transform of the specification agree. A
  line that reaches the paragraph case is rendered as a paragraph tag around the
  result of the global replacement, and whenever no emphasised span contains a line
  terminator that result is the one the specification describes: from the left, each
  span between a \<^verbatim>\<open>**\<close> and the nearest following \<^verbatim>\<open>**\<close> is wrapped in the inline tag,
  a \<^verbatim>\<open>**\<close> with no partner stays literal, and every other code unit is kept (putting
  the delimiters back around the spans gives the line). \<^verbatim>\<open>This is **bold** text\<close> gives
  a paragraph in which only \<^verbatim>\<open>bold\<close> is wrapped.
\<close>

lemma paragraph_agreement:
  "(classify l = Paragraph \<longrightarrow> format_line l = js ''<p>'' @ replace_bold l @ js ''</p>'')
   \<and> (classify l = Paragraph
        \<and> (\<forall>t \<in> set (emphasised (spec_segments l)). \<not> list_ex is_line_terminator t) \<longrightarrow>
        format_line l = js ''<p>'' @ spec_bold l @ js ''</p>'')
   \<and> concat (map segment_source (spec_segments s)) = s
   \<and> formatItinerary (js ''This is **bold** text'')
        = js ''<p>This is <strong>bold</strong> text</p>''"
proof -
  have ex: "formatItinerary (js ''This is **bold** text'')
      = js ''<p>This is <strong>bold</strong> text</p>''" by code_simp
  from format_line_paragraph [of l] replace_bold_spec [of l] spec_segments_source [of s] ex
  show ?thesis by auto
qed

lemma paragraph_agreement_example:
  "classify (js ''x **a** ***b** c **d'' @ [cr]) = Paragraph
   \<and> emphasised (spec_segments (js ''x **a** ***b** c **d'' @ [cr])) = [js ''a'', js ''*b'']
   \<and> format_line (js ''x **a** ***b** c **d'' @ [cr])
        = js ''<p>x <strong>a</strong> <strong>*b</strong> c **d'' @ [cr] @ js ''</p>''"
proof -
  let ?l = "js ''x **a** ***b** c **d'' @ [cr]"
  have a: "classify ?l = Paragraph" by code_simp
  have b: "emphasised (spec_segments ?l) = [js ''a'', js ''*b'']" by code_simp
  have c: "\<forall>t \<in> set (emphasised (spec_segments ?l)). \<not> list_ex is_line_terminator t"
    by code_simp
  have d: "js ''<p>'' @ spec_bold ?l @ js ''</p>''
      = js ''<p>x <strong>a</strong> <strong>*b</strong> c **d'' @ [cr] @ js ''</p>''"
    by code_simp
  from paragraph_agreement [of ?l "[]", THEN conjunct2, THEN conjunct1] a c
  have "format_line ?l = js ''<p>'' @ spec_bold ?l @ js ''</p>''" by blast
  then have "format_line ?l
      = js ''<p>x <strong>a</strong> <strong>*b</strong> c **d'' @ [cr] @ js ''</p>''"
    using d by (rule trans)
  with a b show ?thesis by blast
qed

text \<open>
  C3. Every span delimited by a two-asterisk pair is to be wrapped in the inline tag,
  with everything between the delimiters captured. The code does not do so on the
  paragraph line \<^verbatim>\<open>a **b\rc** d\<close>: the span between the pair holds a carriage return,
  which \<^verbatim>\<open>.\<close> of the pattern does not match, although the comment beside the pattern
  says that it captures any characters. Nothing is replaced and both delimiters stay
  literal, where the transform of the specification wraps \<^verbatim>\<open>b\rc\<close>. The branch for a
  line that is bold as a whole does accept a carriage return between its delimiters:
  \<^verbatim>\<open>**b\rc**\<close> becomes a heading holding \<^verbatim>\<open>b\rc\<close>.
\<close>

theorem bold_span_with_carriage_return:
  "classify (js ''a **b'' @ [cr] @ js ''c** d'') = Paragraph
   \<and> spec_bold (js ''a **b'' @ [cr] @ js ''c** d'') = js ''a <strong>b'' @ [cr] @ js ''c</strong> d''
   \<and> format_line (js ''a **b'' @ [cr] @ js ''c** d'') = js ''<p>a **b'' @ [cr] @ js ''c** d</p>''
   \<and> format_line (js ''a **b'' @ [cr] @ js ''c** d'')
        \<noteq> js ''<p>'' @ spec_bold (js ''a **b'' @ [cr] @ js ''c** d'') @ js ''</p>''
   \<and> formatItinerary (js ''a **b'' @ [cr] @ js ''c** d'')
        = js ''<p>a **b'' @ [cr] @ js ''c** d</p>''
   \<and> format_line (js ''**b'' @ [cr] @ js ''c**'') = js ''<h3>b'' @ [cr] @ js ''c</h3>''"
  by code_simp

section \<open>Carriage returns\<close>



section \<open>Totality\<close>

text \<open>
  C7. The two replacements defined by general recursion terminate on every input
  (every argument is in the accessible part of their call relations; all other
  functions of the renderer recurse structurally), and no operation of the renderer
  can raise on a string. A line that matches none of the six rules is a paragraph when
  it is not empty after trimming and blank otherwise; every line falls into exactly
  one of the eight cases and gets the fragment of that case. The empty text gives the
  empty markup and a text with no line feed is treated as one line.
\<close>

theorem formatItinerary_total:
  "strip_hashes_dom (n, s) \<and> replace_bold_dom s
   \<and> (\<not> starts_with (js ''### '') l \<and> \<not> starts_with (js ''## '') l
        \<and> \<not> starts_with (js ''# '') l
        \<and> \<not> (starts_with (js ''**'') l \<and> ends_with (js ''**'') l)
        \<and> \<not> starts_with (js ''- '') l \<and> trim l \<noteq> js ''---'' \<longrightarrow>
        (trim l \<noteq> [] \<and> classify l = Paragraph
           \<and> format_line l = js ''<p>'' @ replace_bold l @ js ''</p>'')
        \<or> (trim l = [] \<and> classify l = Blank \<and> format_line l = []))
   \<and> format_line u =
       (case classify u of
          Heading3 \<Rightarrow> js ''<h3>'' @ strip_hashes 3 u @ js ''</h3>''
        | Heading2 \<Rightarrow> js ''<h2>'' @ strip_hashes 2 u @ js ''</h2>''
        | Heading1 \<Rightarrow> js ''<h1>'' @ strip_hashes 1 u @ js ''</h1>''
        | StandaloneBold \<Rightarrow> js ''<h3>'' @ strip_stars u @ js ''</h3>''
        | ListItem \<Rightarrow> js ''<li>'' @ strip_dash u @ js ''</li>''
        | Rule \<Rightarrow> hr_fragment
        | Paragraph \<Rightarrow> js ''<p>'' @ replace_bold u @ js ''</p>''
        | Blank \<Rightarrow> [])
   \<and> formatItinerary [] = []
   \<and> (nl \<notin> set t \<longrightarrow> formatItinerary t = format_line t)"
proof -
  have dom1: "strip_hashes_dom (n, s)" using strip_hashes_terminates by blast
  have dom2: "replace_bold_dom s" using replace_bold_terminates by blast
  have fall: "(trim l \<noteq> [] \<and> classify l = Paragraph
           \<and> format_line l = js ''<p>'' @ replace_bold l @ js ''</p>'')
        \<or> (trim l = [] \<and> classify l = Blank \<and> format_line l = [])"
    if "\<not> starts_with (js ''### '') l" "\<not> starts_with (js ''## '') l"
      "\<not> starts_with (js ''# '') l"
      "\<not> (starts_with (js ''**'') l \<and> ends_with (js ''**'') l)"
      "\<not> starts_with (js ''- '') l" "trim l \<noteq> js ''---''"
  proof -
    have "js ''---'' \<noteq> []" by (simp add: js_def)
    with that show ?thesis by (auto simp: classify_def format_line_def)
  qed
  have empty: "formatItinerary [] = []" by (simp add: formatItinerary_def format_line_blank trim_Nil)
  have single: "formatItinerary t = format_line t" if "nl \<notin> set t"
    using that by (simp add: formatItinerary_def split_nl_single)
  from dom1 dom2 fall format_line_cases [of u] empty single show ?thesis by blast
qed

theorem formatItinerary_total_witness:
  "\<not> starts_with (js ''### '') (js ''#### x'') \<and> \<not> starts_with (js ''## '') (js ''#### x'')
   \<and> \<not> starts_with (js ''# '') (js ''#### x'')
   \<and> \<not> (starts_with (js ''**'') (js ''#### x'') \<and> ends_with (js ''**'') (js ''#### x''))
   \<and> \<not> starts_with (js ''- '') (js ''#### x'') \<and> trim (js ''#### x'') \<noteq> js ''---''
   \<and> classify (js ''#### x'') = Paragraph
   \<and> format_line (js ''#### x'') = js ''<p>#### x</p>''
   \<and> nl \<notin> set (js ''-- ** ##'')
   \<and> formatItinerary (js ''-- ** ##'') = js ''<p>-- ** ##</p>''"
proof -
  let ?l = "js ''#### x''"
  let ?t = "js ''-- ** ##''"
  have h: "\<not> starts_with (js ''### '') ?l \<and> \<not> starts_with (js ''## '') ?l
      \<and> \<not> starts_with (js ''# '') ?l
      \<and> \<not> (starts_with (js ''**'') ?l \<and> ends_with (js ''**'') ?l)
      \<and> \<not> starts_with (js ''- '') ?l \<and> trim ?l \<noteq> js ''---''"
    by code_simp
  have ne: "trim ?l \<noteq> []" by code_simp
  have nt: "nl \<notin> set ?t" by code_simp
  note inst = formatItinerary_total [of 1 "[]" ?l "[]" ?t]
  from inst h ne have c: "classify ?l = Paragraph"
    and f: "format_line ?l = js ''<p>'' @ replace_bold ?l @ js ''</p>''"
    by blast+
  have "js ''<p>'' @ replace_bold ?l @ js ''</p>'' = js ''<p>#### x</p>''" by code_simp
  with f have f': "format_line ?l = js ''<p>#### x</p>''" by (rule trans)
  from inst nt have "formatItinerary ?t = format_line ?t" by blast
  moreover have "format_line ?t = js ''<p>-- ** ##</p>''" by code_simp
  ultimately have g: "formatItinerary ?t = js ''<p>-- ** ##</p>''" by (rule trans)
  from h c f' nt g show ?thesis by blast
qed

end
